theory Spec2Isabelle
  imports Complex_Main "HOL-Library.Sublist" "HOL-Library.Word"
begin

section \<open>Text primitives\<close>

text \<open>
  A JavaScript string is a sequence of 16-bit UTF-16 code units, and the operations of the
  source (\<open>match\<close>, \<open>includes\<close>, \<open>split\<close>, \<open>length\<close>) work on code units. \<open>js\<close> turns a
  literal of this theory into such a sequence. JavaScript numbers are modelled by exact
  integers and rationals, which is what the IEEE doubles of the source hold as long as
  the number of seconds stays below \<open>2^53\<close> (numbers of at most twelve digits in the step
  text).
\<close>

type_synonym code_unit = "16 word"

type_synonym jsstring = "code_unit list"

definition js :: "string \<Rightarrow> jsstring" where
  "js s = map of_char s"

definition hyphen :: code_unit where
  "hyphen = of_char CHR ''-''"

text \<open>The class \<open>\d\<close>: the ten ASCII digits.\<close>

definition is_digit :: "code_unit \<Rightarrow> bool" where
  "is_digit c = (48 \<le> c \<and> c \<le> 57)"

text \<open>
  The class \<open>\s\<close>: the white space and line terminators of ECMAScript, which are tab,
  line feed, vertical tab, form feed, carriage return, space, no-break space (U+00A0),
  U+1680, U+2000 to U+200A, the line and paragraph separators U+2028 and U+2029, U+202F,
  U+205F, U+3000 and the byte order mark U+FEFF.
\<close>

definition is_space :: "code_unit \<Rightarrow> bool" where
  "is_space c =
     (c \<in> {0x9, 0xA, 0xB, 0xC, 0xD, 0x20, 0xA0, 0x1680, 0x2028, 0x2029, 0x202F, 0x205F,
             0x3000, 0xFEFF} \<or> (0x2000 \<le> c \<and> c \<le> 0x200A))"

text \<open>
  Under the flag \<open>i\<close> a pattern character and an input character match when
  \<open>Canonicalize\<close> maps them to the same code unit. \<open>Canonicalize\<close> upper-cases a single
  code unit and never maps a unit from 128 on to one below 128. All literal characters of
  the two patterns are ASCII letters, and for those it is enough to upper-case the ASCII
  lower-case letters: an input unit is canonically equal to the letter exactly when it is
  that letter in either case.
\<close>

definition canon :: "code_unit \<Rightarrow> code_unit" where
  "canon c = (if 97 \<le> c \<and> c \<le> 122 then c - 32 else c)"

text \<open>
  \<open>String.prototype.toLowerCase\<close> is a built-in of the JavaScript engine: it covers all
  of Unicode, and some of its mappings change the length of the string or depend on the
  neighbouring characters. It is the parameter \<open>lower\<close> of everything that calls it, and
  all that is fixed is that the empty string has the empty string as its lower case.
\<close>

definition toLowerCase :: "(jsstring \<Rightarrow> jsstring) \<Rightarrow> jsstring \<Rightarrow> jsstring" where
  "toLowerCase lower s = (if s = [] then [] else lower s)"

text \<open>
  What the built-in does on strings whose code units are all below 256: the letters
  \<open>A\<close> to \<open>Z\<close> and U+00C0 to U+00DE without the multiplication sign U+00D7 move up by 32,
  every other unit stays. It is the instance used for the examples.
\<close>

definition lower_latin1 :: "jsstring \<Rightarrow> jsstring" where
  "lower_latin1 s =
     map (\<lambda>c. if (65 \<le> c \<and> c \<le> 90) \<or> (0xC0 \<le> c \<and> c \<le> 0xDE \<and> c \<noteq> 0xD7) then c + 32 else c) s"

text \<open>\<open>String.prototype.includes\<close>: the argument occurs at some position of the receiver.\<close>

fun str_includes :: "jsstring \<Rightarrow> jsstring \<Rightarrow> bool" where
  "str_includes [] sub = (sub = [])"
| "str_includes (c # cs) sub = (prefix sub (c # cs) \<or> str_includes cs sub)"

section \<open>Regular expressions with backtracking\<close>

text \<open>
  The two patterns of \<open>extractTimeInSeconds\<close> are written in a small regular-expression
  syntax. \<open>ms r s\<close> lists, in the order a backtracking matcher tries them, the rests of
  \<open>s\<close> left after matching \<open>r\<close> at the start of \<open>s\<close>: quantifiers are greedy, the left
  alternative comes first. An iteration of a star that consumes nothing is discarded.
\<close>

datatype rx =
    Cls "code_unit \<Rightarrow> bool"
  | Eps
  | Seq rx rx
  | Alt rx rx
  | Opt rx
  | Star rx

fun ms :: "rx \<Rightarrow> jsstring \<Rightarrow> jsstring list" where
  "ms (Cls p) s = (case s of [] \<Rightarrow> [] | c # cs \<Rightarrow> if p c then [cs] else [])"
| "ms Eps s = [s]"
| "ms (Seq a b) s = concat (map (\<lambda>s'. ms b s') (ms a s))"
| "ms (Alt a b) s = ms a s @ ms b s"
| "ms (Opt a) s = ms a s @ [s]"
| "ms (Star a) s =
     concat (map (\<lambda>s'. if length s' < length s then ms (Star a) s' else []) (ms a s)) @ [s]"

definition Plus :: "rx \<Rightarrow> rx" where
  "Plus a = Seq a (Star a)"

text \<open>A literal word under the flag \<open>i\<close>: every character is compared canonically.\<close>

fun word_ci :: "jsstring \<Rightarrow> rx" where
  "word_ci [] = Eps"
| "word_ci (c # cs) = Seq (Cls (\<lambda>x. canon x = canon c)) (word_ci cs)"

text \<open>
  A pattern of the shape \<open>(G)T\<close>: \<open>match_at\<close> is the text captured by the group on the
  first successful path from the start of \<open>s\<close>; \<open>match_rx\<close> is \<open>String.prototype.match\<close>
  without the flag \<open>g\<close>, which tries the start positions from left to right; of the match
  array only the group \<open>[1]\<close> is kept, and \<open>None\<close> is \<open>null\<close>.
\<close>

definition match_at :: "rx \<Rightarrow> rx \<Rightarrow> jsstring \<Rightarrow> jsstring option" where
  "match_at g t s =
     (case List.find (\<lambda>s'. ms t s' \<noteq> []) (ms g s) of
        None \<Rightarrow> None
      | Some s' \<Rightarrow> Some (take (length s - length s') s))"

fun match_rx :: "rx \<Rightarrow> rx \<Rightarrow> jsstring \<Rightarrow> jsstring option" where
  "match_rx g t [] = match_at g t []"
| "match_rx g t (c # cs) =
     (case match_at g t (c # cs) of Some v \<Rightarrow> Some v | None \<Rightarrow> match_rx g t cs)"

section \<open>Duration Extractor\<close>

text \<open>The group \<open>(\d+(?:-\d+)?)\<close> shared by both patterns.\<close>

definition number_group :: rx where
  "number_group = Seq (Plus (Cls is_digit)) (Opt (Seq (Cls (\<lambda>c. c = hyphen)) (Plus (Cls is_digit))))"

text \<open>\<open>\s*(?:min|minute)s?\<close> and \<open>\s*(?:hr|hour)s?\<close>, both under the flag \<open>i\<close>.\<close>

definition minute_tail :: rx where
  "minute_tail = Seq (Star (Cls is_space))
                  (Seq (Alt (word_ci (js ''min'')) (word_ci (js ''minute''))) (Opt (word_ci (js ''s''))))"

definition hour_tail :: rx where
  "hour_tail = Seq (Star (Cls is_space))
                (Seq (Alt (word_ci (js ''hr'')) (word_ci (js ''hour''))) (Opt (word_ci (js ''s''))))"

definition minuteMatch :: "jsstring \<Rightarrow> jsstring option" where
  "minuteMatch text = match_rx number_group minute_tail text"

definition hourMatch :: "jsstring \<Rightarrow> jsstring option" where
  "hourMatch text = match_rx number_group hour_tail text"

text \<open>\<open>val.split('-')[0]\<close>: the part before the first hyphen.\<close>

definition lower_bound :: "jsstring \<Rightarrow> jsstring" where
  "lower_bound val = (if hyphen \<in> set val then takeWhile (\<lambda>c. c \<noteq> hyphen) val else val)"

text \<open>
  \<open>parseFloat\<close> on unsigned decimal literals: the longest prefix of the shape
  \<open>digits\<close> or \<open>digits.digits\<close>; \<open>None\<close> is \<open>NaN\<close>. Signs, exponents, leading blanks and a
  literal that starts with the point are left out: the patterns never capture them.
\<close>

definition digits_val :: "jsstring \<Rightarrow> nat" where
  "digits_val ds = foldl (\<lambda>n c. 10 * n + (unat c - 48)) 0 ds"

definition parseFloat :: "jsstring \<Rightarrow> rat option" where
  "parseFloat s =
     (let ip = takeWhile is_digit s; r = dropWhile is_digit s in
      if ip = [] then None
      else (case r of
              c # r' \<Rightarrow>
                (if c = of_char CHR ''.'' then
                   (let fp = takeWhile is_digit r' in
                    Some (of_nat (digits_val ip) + of_nat (digits_val fp) / 10 ^ length fp))
                 else Some (of_nat (digits_val ip)))
            | [] \<Rightarrow> Some (of_nat (digits_val ip))))"

text \<open>A number returned by the extractor: \<open>NaN\<close> or an integer (the result of \<open>Math.floor\<close>).\<close>

datatype number = NaN | IntV int

definition floor_times :: "rat option \<Rightarrow> rat \<Rightarrow> number" where
  "floor_times v k = (case v of None \<Rightarrow> NaN | Some q \<Rightarrow> IntV \<lfloor>q * k\<rfloor>)"

definition extractTimeInSeconds :: "jsstring \<Rightarrow> number option" where
  "extractTimeInSeconds text =
     (case minuteMatch text of
        Some val \<Rightarrow> Some (floor_times (parseFloat (lower_bound val)) 60)
      | None \<Rightarrow>
          (case hourMatch text of
             Some val \<Rightarrow> Some (floor_times (parseFloat (lower_bound val)) 3600)
           | None \<Rightarrow> None))"

section \<open>Step-Ingredient Matcher\<close>

record ingredient =
  name :: jsstring
  amount :: jsstring

text \<open>An ingredient with its position in the recipe: \<open>{ ...ing, originalIndex: idx }\<close>.\<close>

record tagged_ingredient = ingredient +
  originalIndex :: nat

definition tag :: "ingredient \<Rightarrow> nat \<Rightarrow> tagged_ingredient" where
  "tag ing idx = \<lparr>name = name ing, amount = amount ing, originalIndex = idx\<rparr>"

text \<open>The separator class \<open>[\s-]\<close>.\<close>

definition is_sep :: "code_unit \<Rightarrow> bool" where
  "is_sep c = (is_space c \<or> c = hyphen)"

text \<open>
  \<open>String.prototype.split\<close> with a pattern \<open>[...]+\<close> that cannot match the empty string:
  the piece before the next run of separators, then the pieces of what follows the run.
  A run at the very start or end yields an empty piece, and the empty string yields one
  empty piece.
\<close>

function split_runs :: "(code_unit \<Rightarrow> bool) \<Rightarrow> jsstring \<Rightarrow> jsstring list" where
  "split_runs p s =
     takeWhile (\<lambda>c. \<not> p c) s #
       (case dropWhile (\<lambda>c. \<not> p c) s of
          [] \<Rightarrow> []
        | c # cs \<Rightarrow> split_runs p (dropWhile p cs))"
  by pat_completeness auto
termination
proof (relation "measure (\<lambda>(p, s). length s)")
  show "wf (measure (\<lambda>(p, s). length s))" by simp
next
  fix p :: "code_unit \<Rightarrow> bool" and s :: jsstring and c :: code_unit and cs :: jsstring
  assume eq: "dropWhile (\<lambda>c. \<not> p c) s = c # cs"
  have "length (dropWhile p cs) \<le> length cs" by (rule length_dropWhile_le)
  also have "length cs < length (dropWhile (\<lambda>c. \<not> p c) s)" using eq by simp
  also have "\<dots> \<le> length s" by (rule length_dropWhile_le)
  finally show "((p, dropWhile p cs), (p, s)) \<in> measure (\<lambda>(p, s). length s)" by simp
qed

definition ingredient_matches :: "(jsstring \<Rightarrow> jsstring) \<Rightarrow> jsstring \<Rightarrow> jsstring \<Rightarrow> bool" where
  "ingredient_matches lower currentStepText nm =
     (if str_includes (toLowerCase lower currentStepText) (toLowerCase lower nm) then True
      else list_ex (\<lambda>part. length part \<ge> 4 \<and>
                      str_includes (toLowerCase lower currentStepText) (toLowerCase lower part))
             (split_runs is_sep nm))"

definition stepIngredients ::
  "(jsstring \<Rightarrow> jsstring) \<Rightarrow> jsstring \<Rightarrow> ingredient list \<Rightarrow> tagged_ingredient list" where
  "stepIngredients lower currentStepText ings =
     filter (\<lambda>ing. ingredient_matches lower currentStepText (name ing))
       (map (\<lambda>(ing, idx). tag ing idx) (zip ings [0..<length ings]))"

section \<open>Cook-mode session\<close>

text \<open>
  The state of the component \<open>CookMode\<close>: the three \<open>useState\<close> cells. Of the recipe
  only the steps and the ingredients are read. A key \<open>stepIndex-ingredientIndex\<close> of the
  checked set is kept as the pair of its two numbers.
\<close>

record timer =
  duration :: int
  remaining :: int
  isRunning :: bool
  stepIndex :: int

record session =
  currentStepIndex :: int
  timer :: "timer option"
  checkedItems :: "(int \<times> int) set"

record recipe =
  steps :: "jsstring list"
  ingredients :: "ingredient list"

definition initial :: session where
  "initial = \<lparr>currentStepIndex = 0, timer = None, checkedItems = {}\<rparr>"

text \<open>
  \<open>recipe.steps[currentStepIndex]\<close>; outside the list it is \<open>undefined\<close>, on which
  \<open>extractTimeInSeconds\<close> throws while rendering, so that no handler is ever installed:
  that case is \<open>None\<close> here and gives no duration.
\<close>

definition currentStepText :: "recipe \<Rightarrow> session \<Rightarrow> jsstring option" where
  "currentStepText r s =
     (if 0 \<le> currentStepIndex s \<and> currentStepIndex s < int (length (steps r))
      then Some (steps r ! nat (currentStepIndex s)) else None)"

definition detectedDuration :: "recipe \<Rightarrow> session \<Rightarrow> number option" where
  "detectedDuration r s =
     (case currentStepText r s of None \<Rightarrow> None | Some text \<Rightarrow> extractTimeInSeconds text)"

text \<open>
  Next and Prev. Both also cancel the speech synthesis, which is no part of the session
  state.
\<close>

definition handleNext :: "recipe \<Rightarrow> session \<Rightarrow> session" where
  "handleNext r s =
     (if currentStepIndex s < int (length (steps r)) - 1
      then s\<lparr>currentStepIndex := currentStepIndex s + 1\<rparr> else s)"

definition handlePrev :: "recipe \<Rightarrow> session \<Rightarrow> session" where
  "handlePrev r s =
     (if currentStepIndex s > 0
      then s\<lparr>currentStepIndex := currentStepIndex s - 1\<rparr> else s)"

text \<open>The link "Go to step" of the timer sheet: \<open>setCurrentStepIndex(timer.stepIndex)\<close>.\<close>

definition goToTimerStep :: "session \<Rightarrow> session" where
  "goToTimerStep s =
     (case timer s of None \<Rightarrow> s | Some t \<Rightarrow> s\<lparr>currentStepIndex := stepIndex t\<rparr>)"

text \<open>\<open>if (detectedDuration)\<close>: \<open>null\<close>, \<open>NaN\<close> and \<open>0\<close> are falsy.\<close>

definition startTimer :: "recipe \<Rightarrow> session \<Rightarrow> session" where
  "startTimer r s =
     (case detectedDuration r s of
        Some (IntV d) \<Rightarrow>
          (if d \<noteq> 0
           then s\<lparr>timer := Some \<lparr>duration = d, remaining = d, isRunning = True,
                                  stepIndex = currentStepIndex s\<rparr>\<rparr>
           else s)
      | _ \<Rightarrow> s)"

text \<open>The state update that the one-second interval applies.\<close>

definition tick :: "session \<Rightarrow> session" where
  "tick s =
     (case timer s of
        None \<Rightarrow> s
      | Some prev \<Rightarrow>
          (if \<not> isRunning prev then s
           else if remaining prev \<le> 1
           then s\<lparr>timer := Some (prev\<lparr>remaining := 0, isRunning := False\<rparr>)\<rparr>
           else s\<lparr>timer := Some (prev\<lparr>remaining := remaining prev - 1\<rparr>)\<rparr>))"

definition toggleTimer :: "session \<Rightarrow> session" where
  "toggleTimer s =
     (case timer s of
        None \<Rightarrow> s\<lparr>timer := None\<rparr>
      | Some prev \<Rightarrow> s\<lparr>timer := Some (prev\<lparr>isRunning := \<not> isRunning prev\<rparr>)\<rparr>)"

definition resetTimer :: "session \<Rightarrow> session" where
  "resetTimer s =
     (case timer s of
        None \<Rightarrow> s\<lparr>timer := None\<rparr>
      | Some prev \<Rightarrow> s\<lparr>timer := Some (prev\<lparr>remaining := duration prev, isRunning := False\<rparr>)\<rparr>)"

definition stopTimer :: "session \<Rightarrow> session" where
  "stopTimer s = s\<lparr>timer := None\<rparr>"

definition toggleIngredientCheck :: "int \<Rightarrow> session \<Rightarrow> session" where
  "toggleIngredientCheck ingredientIndex s =
     (let key = (currentStepIndex s, ingredientIndex) in
      if key \<in> checkedItems s
      then s\<lparr>checkedItems := checkedItems s - {key}\<rparr>
      else s\<lparr>checkedItems := insert key (checkedItems s)\<rparr>)"

text \<open>The step index, and the step a timer is bound to, are positions of the recipe.\<close>

definition index_ok :: "recipe \<Rightarrow> session \<Rightarrow> bool" where
  "index_ok r s =
     (0 \<le> currentStepIndex s \<and> currentStepIndex s < int (length (steps r)) \<and>
      (case timer s of None \<Rightarrow> True
       | Some t \<Rightarrow> 0 \<le> stepIndex t \<and> stepIndex t < int (length (steps r))))"

text \<open>The bounds of a countdown: between zero and its duration.\<close>

definition timer_ok :: "session \<Rightarrow> bool" where
  "timer_ok s = (case timer s of None \<Rightarrow> True | Some t \<Rightarrow> 0 \<le> remaining t \<and> remaining t \<le> duration t)"

text \<open>
  What the view offers. The pause/resume and reset buttons are rendered only while a
  timer exists and \<open>timer.remaining === 0\<close> is false; with \<open>remaining = 0\<close> the sheet
  shows the dismiss button alone.
\<close>

definition toggle_offered :: "session \<Rightarrow> bool" where
  "toggle_offered s = (case timer s of None \<Rightarrow> False | Some t \<Rightarrow> remaining t \<noteq> 0)"

text \<open>
  The start button is rendered for \<open>detectedDuration && !isTimerForThisStep\<close>, where
  \<open>isTimerForThisStep\<close> is \<open>timer?.stepIndex === currentStepIndex\<close>.
\<close>

definition start_offered :: "recipe \<Rightarrow> session \<Rightarrow> bool" where
  "start_offered r s =
     ((case detectedDuration r s of Some (IntV d) \<Rightarrow> d \<noteq> 0 | _ \<Rightarrow> False) \<and>
      (case timer s of None \<Rightarrow> True | Some t \<Rightarrow> stepIndex t \<noteq> currentStepIndex s))"

text \<open>
  The operations of a session, and the states they reach from the initial one. Every
  operation may be applied in every state, whether or not the view offers its button
  there, and a tick may arrive at any time.
\<close>

datatype action =
    Next | Prev | GoToStep
  | StartTimer | Tick | ToggleTimer | ResetTimer | StopTimer
  | ToggleIngredientCheck int

fun perform :: "recipe \<Rightarrow> action \<Rightarrow> session \<Rightarrow> session" where
  "perform r Next s = handleNext r s"
| "perform r Prev s = handlePrev r s"
| "perform r GoToStep s = goToTimerStep s"
| "perform r StartTimer s = startTimer r s"
| "perform r Tick s = tick s"
| "perform r ToggleTimer s = toggleTimer s"
| "perform r ResetTimer s = resetTimer s"
| "perform r StopTimer s = stopTimer s"
| "perform r (ToggleIngredientCheck i) s = toggleIngredientCheck i s"

inductive reachable :: "recipe \<Rightarrow> session \<Rightarrow> bool" for r :: recipe where
  reach_initial: "reachable r initial"
| reach_perform: "reachable r s \<Longrightarrow> reachable r (perform r a s)"

section \<open>The languages of the patterns\<close>

text \<open>The words a pattern can match, as sets: the reference for the backtracking matcher.\<close>

inductive_set star :: "jsstring set \<Rightarrow> jsstring set" for A :: "jsstring set" where
  star_empty: "[] \<in> star A"
| star_step: "u \<in> A \<Longrightarrow> v \<in> star A \<Longrightarrow> u @ v \<in> star A"

fun lang :: "rx \<Rightarrow> jsstring set" where
  "lang (Cls p) = {[c] | c. p c}"
| "lang Eps = {[]}"
| "lang (Seq a b) = {u @ v | u v. u \<in> lang a \<and> v \<in> lang b}"
| "lang (Alt a b) = lang a \<union> lang b"
| "lang (Opt a) = insert [] (lang a)"
| "lang (Star a) = star (lang a)"

section \<open>Quantity Scaler\<close>

text \<open>
  Modelled from the spec: \<open>scaleAmount\<close> is imported by \<open>RecipeDetailModal.tsx\<close> from the
  module \<open>utils\<close>, which is not among the sources; only its call
  \<open>scaleAmount(ing.amount, recipe.servings || 2, currentServings)\<close> is. The spec (4.2)
  says: when the amount begins with a recognizable numeric quantity (an integer, a
  decimal, a simple fraction \<open>a/b\<close> or a mixed number \<open>a b/c\<close>) the number is scaled by
  desired / original servings, an original count that is not positive being taken as 1,
  and the rest of the string is kept verbatim; otherwise the original string is returned
  unchanged. How the scaled number is written is left open by the spec (it allows both
  \<open>0.75\<close> and \<open>3/4\<close>), so the rendering is a parameter.
\<close>

definition leading_quantity :: "jsstring \<Rightarrow> (rat \<times> jsstring) option" where
  "leading_quantity s =
     (let a = takeWhile is_digit s; r = dropWhile is_digit s in
      if a = [] then None
      else (case r of
              [] \<Rightarrow> Some (of_nat (digits_val a), [])
            | c # r1 \<Rightarrow>
                (let b = takeWhile is_digit r1; r2 = dropWhile is_digit r1 in
                 if c = of_char CHR ''/'' \<and> b \<noteq> [] \<and> digits_val b \<noteq> 0
                 then Some (of_nat (digits_val a) / of_nat (digits_val b), r2)
                 else if c = of_char CHR ''.'' \<and> b \<noteq> []
                 then Some (of_nat (digits_val a) + of_nat (digits_val b) / 10 ^ length b, r2)
                 else if c = of_char CHR '' '' \<and> b \<noteq> []
                 then (case r2 of
                         [] \<Rightarrow> Some (of_nat (digits_val a), r)
                       | d # r3 \<Rightarrow>
                           (let e = takeWhile is_digit r3 in
                            if d = of_char CHR ''/'' \<and> e \<noteq> [] \<and> digits_val e \<noteq> 0
                            then Some (of_nat (digits_val a)
                                       + of_nat (digits_val b) / of_nat (digits_val e),
                                       dropWhile is_digit r3)
                            else Some (of_nat (digits_val a), r)))
                 else Some (of_nat (digits_val a), r))))"

definition scaleAmount :: "(rat \<Rightarrow> jsstring) \<Rightarrow> jsstring \<Rightarrow> int \<Rightarrow> int \<Rightarrow> jsstring" where
  "scaleAmount render amt originalServings desiredServings =
     (case leading_quantity amt of
        None \<Rightarrow> amt
      | Some (q, rest) \<Rightarrow>
          render (q * of_int desiredServings
                    / of_int (if originalServings > 0 then originalServings else 1)) @ rest)"

section \<open>Referenced ingredients\<close>




section \<open>Duration expressions\<close>

text \<open>
  What the spec calls a duration expression, stated on the text itself: a number (digits,
  or two digit groups joined by a hyphen), optional white space, and a unit word of the
  family, which is one of its words with every letter in either case.
\<close>

definition digits :: "jsstring \<Rightarrow> bool" where
  "digits a = (a \<noteq> [] \<and> (\<forall>c\<in>set a. is_digit c))"

definition number_text :: "jsstring \<Rightarrow> bool" where
  "number_text n = (digits n \<or> (\<exists>a b. n = a @ [hyphen] @ b \<and> digits a \<and> digits b))"

definition minute_words :: "jsstring list" where
  "minute_words = [js ''min'', js ''minute'', js ''mins'', js ''minutes'']"

definition hour_words :: "jsstring list" where
  "hour_words = [js ''hr'', js ''hour'', js ''hrs'', js ''hours'']"

definition unit_word :: "jsstring list \<Rightarrow> jsstring \<Rightarrow> bool" where
  "unit_word units u = (\<exists>x\<in>set units. map canon u = map canon x)"

definition duration_expression :: "jsstring list \<Rightarrow> jsstring \<Rightarrow> jsstring \<Rightarrow> bool" where
  "duration_expression units n e =
     (\<exists>ws u. e = n @ ws @ u \<and> number_text n \<and> (\<forall>c\<in>set ws. is_space c) \<and> unit_word units u)"

definition contains_expression :: "jsstring list \<Rightarrow> jsstring \<Rightarrow> bool" where
  "contains_expression units text =
     (\<exists>pre n e post. text = pre @ e @ post \<and> duration_expression units n e)"

section \<open>Sample data\<close>

definition rest_recipe :: recipe where
  "rest_recipe = \<lparr>steps = [js ''Rest 1 min''], ingredients = []\<rparr>"

definition expired_session :: session where
  "expired_session =
     \<lparr>currentStepIndex = 0,
      timer = Some \<lparr>duration = 60, remaining = 0, isRunning = False, stepIndex = 0\<rparr>,
      checkedItems = {}\<rparr>"

definition running_session :: "int \<Rightarrow> session" where
  "running_session n =
     \<lparr>currentStepIndex = 0,
      timer = Some \<lparr>duration = 60, remaining = n, isRunning = True, stepIndex = 0\<rparr>,
      checkedItems = {}\<rparr>"

definition dinner :: recipe where
  "dinner =
     \<lparr>steps = [js ''Chop the onion'', js ''Season the chicken with salt'', js ''Simmer for 10 minutes'',
               js ''Add the broth'', js ''Bake for 1 hour''],
      ingredients = [\<lparr>name = js ''Chicken Breast'', amount = js ''2''\<rparr>,
                     \<lparr>name = js ''Salt'', amount = js ''a pinch''\<rparr>,
                     \<lparr>name = [], amount = js ''1 cup''\<rparr>]\<rparr>"



text \<open>Two steps forward in the sample recipe, then a timer for "Simmer for 10 minutes".\<close>

definition simmering :: session where
  "simmering = startTimer dinner (handleNext dinner (handleNext dinner initial))"

section \<open>Properties of the Duration Extractor\<close>

declare ms.simps(6) [simp del]

text \<open>
  C1. The source comment promises that \<open>1.5 hrs\<close> is matched, and the spec expects 5400
  seconds for \<open>1.5 hrs in the oven\<close>. The pattern has no decimal point: the hour pattern
  captures the \<open>5\<close> after the point, and the extractor returns 18000.
\<close>

theorem extract_fractional_hours:
  "minuteMatch (js ''1.5 hrs in the oven'') = None
   \<and> hourMatch (js ''1.5 hrs in the oven'') = Some (js ''5'')
   \<and> extractTimeInSeconds (js ''1.5 hrs in the oven'') = Some (IntV 18000)
   \<and> floor_times (parseFloat (js ''1.5'')) 3600 = IntV 5400"
  by code_simp

lemma star_unfold:
  "w \<in> star A \<Longrightarrow> w = [] \<or> (\<exists>u v. w = u @ v \<and> u \<in> A \<and> u \<noteq> [] \<and> v \<in> star A)"
proof (induction rule: star.induct)
  case star_empty
  then show ?case by simp
next
  case (star_step u v)
  show ?case
  proof (cases "u = []")
    case True
    with star_step.IH show ?thesis by simp
  next
    case False
    with star_step.hyps show ?thesis by blast
  qed
qed

lemma ms_Star_mem:
  "x \<in> set (ms (Star a) s) \<longleftrightarrow>
     x = s \<or> (\<exists>s1 \<in> set (ms a s). length s1 < length s \<and> x \<in> set (ms (Star a) s1))"
  by (subst ms.simps(6)) (auto split: if_splits)

text \<open>The rests listed by the matcher are exactly those left by a word of the language.\<close>

lemma ms_lang: "s' \<in> set (ms r s) \<longleftrightarrow> (\<exists>w. w \<in> lang r \<and> s = w @ s')"
proof (induction r s arbitrary: s' rule: ms.induct)
  case (1 p s)
  show ?case by (cases s) auto
next
  case (2 s)
  show ?case by auto
next
  case (3 a b s)
  show ?case
  proof
    assume "s' \<in> set (ms (Seq a b) s)"
    then obtain s1 where s1: "s1 \<in> set (ms a s)" and s': "s' \<in> set (ms b s1)" by auto
    from s1 obtain u where u: "u \<in> lang a" "s = u @ s1" using "3.IH"(1) by blast
    from s' obtain v where v: "v \<in> lang b" "s1 = v @ s'" using "3.IH"(2)[OF s1] by blast
    from u v have "u @ v \<in> lang (Seq a b)" "s = (u @ v) @ s'" by auto
    then show "\<exists>w. w \<in> lang (Seq a b) \<and> s = w @ s'" by blast
  next
    assume "\<exists>w. w \<in> lang (Seq a b) \<and> s = w @ s'"
    then obtain u v where uv: "u \<in> lang a" "v \<in> lang b" "s = (u @ v) @ s'" by auto
    then have s1: "v @ s' \<in> set (ms a s)" using "3.IH"(1) by auto
    have "s' \<in> set (ms b (v @ s'))" using "3.IH"(2)[OF s1] uv(2) by blast
    with s1 show "s' \<in> set (ms (Seq a b) s)" by auto
  qed
next
  case (4 a b s)
  then show ?case by auto
next
  case (5 a s)
  then show ?case by auto
next
  case (6 a s)
  show ?case
  proof
    assume "s' \<in> set (ms (Star a) s)"
    then consider "s' = s"
      | s1 where "s1 \<in> set (ms a s)" "length s1 < length s" "s' \<in> set (ms (Star a) s1)"
      using ms_Star_mem[of s' a s] by blast
    then show "\<exists>w. w \<in> lang (Star a) \<and> s = w @ s'"
    proof cases
      case 1
      then show ?thesis by (auto intro: star_empty)
    next
      case 2
      from 2(1) obtain u where u: "u \<in> lang a" "s = u @ s1" using "6.IH"(1) by blast
      from 2(3) obtain v where v: "v \<in> lang (Star a)" "s1 = v @ s'"
        using "6.IH"(2)[OF 2(1) 2(2)] by blast
      from u v have "u @ v \<in> lang (Star a)" "s = (u @ v) @ s'" by (auto intro: star_step)
      then show ?thesis by blast
    qed
  next
    assume "\<exists>w. w \<in> lang (Star a) \<and> s = w @ s'"
    then obtain w where w: "w \<in> star (lang a)" "s = w @ s'" by auto
    from star_unfold[OF w(1)] show "s' \<in> set (ms (Star a) s)"
    proof
      assume "w = []"
      with w show ?thesis using ms_Star_mem[of s' a s] by blast
    next
      assume "\<exists>u v. w = u @ v \<and> u \<in> lang a \<and> u \<noteq> [] \<and> v \<in> star (lang a)"
      then obtain u v where uv: "w = u @ v" "u \<in> lang a" "u \<noteq> []" "v \<in> star (lang a)" by blast
      have s1: "v @ s' \<in> set (ms a s)" using "6.IH"(1) uv w by auto
      have len: "length (v @ s') < length s" using uv w by simp
      have "s' \<in> set (ms (Star a) (v @ s'))" using "6.IH"(2)[OF s1 len] uv(4) by auto
      with s1 len show ?thesis using ms_Star_mem[of s' a s] by blast
    qed
  qed
qed

lemma ms_nonempty_iff: "ms t s \<noteq> [] \<longleftrightarrow> (\<exists>w rest. w \<in> lang t \<and> s = w @ rest)"
proof -
  have "ms t s \<noteq> [] \<longleftrightarrow> (\<exists>x. x \<in> set (ms t s))" by (cases "ms t s") auto
  then show ?thesis by (simp only: ms_lang) blast
qed

lemma match_at_Some:
  assumes "match_at g t s = Some v"
  shows "v \<in> lang g \<and> (\<exists>w rest. w \<in> lang t \<and> s = v @ w @ rest)"
proof -
  from assms obtain s' where f: "List.find (\<lambda>s'. ms t s' \<noteq> []) (ms g s) = Some s'"
    and v: "v = take (length s - length s') s"
    by (auto simp: match_at_def split: option.splits)
  from f have mem: "s' \<in> set (ms g s)" and ne: "ms t s' \<noteq> []"
    by (auto simp: find_Some_iff)
  from mem obtain u where u: "u \<in> lang g" "s = u @ s'" using ms_lang by blast
  from ne obtain w rest where w: "w \<in> lang t" "s' = w @ rest" using ms_nonempty_iff by blast
  from u v have "v = u" by simp
  with u w show ?thesis by auto
qed

lemma match_at_None_iff:
  "match_at g t s = None \<longleftrightarrow> \<not> (\<exists>v w rest. v \<in> lang g \<and> w \<in> lang t \<and> s = v @ w @ rest)"
proof
  assume "match_at g t s = None"
  then have none: "\<forall>s'\<in>set (ms g s). ms t s' = []"
    by (auto simp: match_at_def find_None_iff split: option.splits)
  show "\<not> (\<exists>v w rest. v \<in> lang g \<and> w \<in> lang t \<and> s = v @ w @ rest)"
  proof
    assume "\<exists>v w rest. v \<in> lang g \<and> w \<in> lang t \<and> s = v @ w @ rest"
    then obtain v w rest where h: "v \<in> lang g" "w \<in> lang t" "s = v @ w @ rest" by blast
    then have "w @ rest \<in> set (ms g s)" using ms_lang by blast
    with none have "ms t (w @ rest) = []" by blast
    moreover have "ms t (w @ rest) \<noteq> []" using h(2) ms_nonempty_iff by blast
    ultimately show False by simp
  qed
next
  assume no: "\<not> (\<exists>v w rest. v \<in> lang g \<and> w \<in> lang t \<and> s = v @ w @ rest)"
  show "match_at g t s = None"
  proof (cases "match_at g t s")
    case None
    then show ?thesis .
  next
    case (Some v)
    from match_at_Some [OF Some] no show ?thesis by blast
  qed
qed

lemma match_rx_Some:
  "match_rx g t text = Some v \<Longrightarrow>
     v \<in> lang g \<and> (\<exists>pre w post. w \<in> lang t \<and> text = pre @ v @ w @ post)"
proof (induction g t "text" rule: match_rx.induct)
  case (1 g t)
  then have "match_at g t [] = Some v" by simp
  from match_at_Some [OF this] show ?case by (metis append_Nil)
next
  case (2 g t c cs)
  show ?case
  proof (cases "match_at g t (c # cs)")
    case (Some v')
    with "2.prems" have "match_at g t (c # cs) = Some v" by simp
    from match_at_Some [OF this] show ?thesis by (metis append_Nil)
  next
    case None
    with "2.prems" have "match_rx g t cs = Some v" by simp
    from "2.IH" [OF None this] obtain pre w post where
      "v \<in> lang g" "w \<in> lang t" "cs = pre @ v @ w @ post" by blast
    then have "v \<in> lang g" "w \<in> lang t" "c # cs = (c # pre) @ v @ w @ post" by simp_all
    then show ?thesis by blast
  qed
qed

lemma match_rx_None_iff:
  "match_rx g t text = None \<longleftrightarrow>
     \<not> (\<exists>pre v w post. v \<in> lang g \<and> w \<in> lang t \<and> text = pre @ v @ w @ post)"
proof (induction g t "text" rule: match_rx.induct)
  case (1 g t)
  show ?case by (simp add: match_at_None_iff)
next
  case (2 g t c cs)
  show ?case
  proof (cases "match_at g t (c # cs)")
    case (Some v)
    from match_at_Some [OF Some] obtain w rest where
      "v \<in> lang g" "w \<in> lang t" "c # cs = [] @ v @ w @ rest" by auto
    then have "\<exists>pre v w post. v \<in> lang g \<and> w \<in> lang t \<and> c # cs = pre @ v @ w @ post" by blast
    with Some show ?thesis by simp
  next
    case None
    have "(\<exists>pre v w post. v \<in> lang g \<and> w \<in> lang t \<and> c # cs = pre @ v @ w @ post) \<longleftrightarrow>
          (\<exists>pre v w post. v \<in> lang g \<and> w \<in> lang t \<and> cs = pre @ v @ w @ post)"
      (is "?L \<longleftrightarrow> ?R")
    proof
      assume ?L
      then obtain pre v w post where h: "v \<in> lang g" "w \<in> lang t" "c # cs = pre @ v @ w @ post"
        by blast
      show ?R
      proof (cases pre)
        case Nil
        with h None show ?thesis by (simp add: match_at_None_iff) blast
      next
        case (Cons x pre')
        with h have "cs = pre' @ v @ w @ post" by simp
        with h show ?thesis by blast
      qed
    next
      assume ?R
      then obtain pre v w post where h: "v \<in> lang g" "w \<in> lang t" "cs = pre @ v @ w @ post"
        by blast
      then have "c # cs = (c # pre) @ v @ w @ post" by simp
      with h show ?L by blast
    qed
    with None "2.IH" [OF None] show ?thesis by simp
  qed
qed

lemma star_Cls: "star {[c] | c. p c} = {w. \<forall>c\<in>set w. p c}"
proof (intro set_eqI iffI)
  fix w assume "w \<in> star {[c] | c. p c}"
  then show "w \<in> {w. \<forall>c\<in>set w. p c}"
    by (induction rule: star.induct) auto
next
  fix w assume "w \<in> {w. \<forall>c\<in>set w. p c}"
  then have "\<forall>c\<in>set w. p c" by simp
  then show "w \<in> star {[c] | c. p c}"
  proof (induction w)
    case Nil
    show ?case by (rule star_empty)
  next
    case (Cons c w)
    then have "[c] \<in> {[c] | c. p c}" and "w \<in> star {[c] | c. p c}" by auto
    then have "[c] @ w \<in> star {[c] | c. p c}" by (rule star_step)
    then show ?case by simp
  qed
qed


lemma lang_SeqI: "u \<in> lang a \<Longrightarrow> v \<in> lang b \<Longrightarrow> u @ v \<in> lang (Seq a b)"
  unfolding lang.simps by blast


lemma lang_SeqE:
  assumes "w \<in> lang (Seq a b)"
  obtains u v where "w = u @ v" "u \<in> lang a" "v \<in> lang b"
  using assms unfolding lang.simps by blast


lemma lang_Star_Cls: "lang (Star (Cls p)) = {w. \<forall>c\<in>set w. p c}"
  by (simp add: star_Cls)


lemma lang_Plus_Cls: "lang (Plus (Cls p)) = {w. w \<noteq> [] \<and> (\<forall>c\<in>set w. p c)}"
proof (intro set_eqI iffI)
  fix w assume "w \<in> lang (Plus (Cls p))"
  then show "w \<in> {w. w \<noteq> [] \<and> (\<forall>c\<in>set w. p c)}"
    by (auto simp: Plus_def star_Cls)
next
  fix w assume "w \<in> {w. w \<noteq> [] \<and> (\<forall>c\<in>set w. p c)}"
  then obtain c v where w: "w = [c] @ v" and "p c" "\<forall>c\<in>set v. p c" by (cases w) auto
  then have "[c] \<in> lang (Cls p)" and "v \<in> lang (Star (Cls p))"
    by (simp_all add: star_Cls)
  then have "[c] @ v \<in> lang (Seq (Cls p) (Star (Cls p)))" by (rule lang_SeqI)
  with w show "w \<in> lang (Plus (Cls p))"
    by (simp only: Plus_def)
qed


lemma lang_digits: "lang (Plus (Cls is_digit)) = {a. digits a}"
  by (simp add: lang_Plus_Cls digits_def)


lemma lang_word_ci: "lang (word_ci u) = {w. map canon w = map canon u}"
proof (induction u)
  case Nil
  show ?case by simp
next
  case (Cons c u)
  show ?case
  proof (intro set_eqI iffI)
    fix w assume "w \<in> lang (word_ci (c # u))"
    then show "w \<in> {w. map canon w = map canon (c # u)}"
      using Cons.IH by auto
  next
    fix w assume "w \<in> {w. map canon w = map canon (c # u)}"
    then obtain x v where w: "w = [x] @ v" and "canon x = canon c"
      "map canon v = map canon u"
      by (cases w) auto
    then have "[x] \<in> lang (Cls (\<lambda>x. canon x = canon c))" and "v \<in> lang (word_ci u)"
      using Cons.IH by simp_all
    then have "[x] @ v \<in> lang (Seq (Cls (\<lambda>x. canon x = canon c)) (word_ci u))"
      by (rule lang_SeqI)
    with w show "w \<in> lang (word_ci (c # u))"
      by simp
  qed
qed

lemma lang_number_group: "v \<in> lang number_group \<longleftrightarrow> number_text v"
proof
  assume "v \<in> lang number_group"
  then obtain a m where v: "v = a @ m" and a: "a \<in> lang (Plus (Cls is_digit))"
    and m: "m \<in> lang (Opt (Seq (Cls (\<lambda>c. c = hyphen)) (Plus (Cls is_digit))))"
    unfolding number_group_def by (rule lang_SeqE)
  from a have da: "digits a" by (simp add: lang_digits)
  from m have "m = [] \<or> m \<in> lang (Seq (Cls (\<lambda>c. c = hyphen)) (Plus (Cls is_digit)))"
    by simp
  then show "number_text v"
  proof
    assume "m = []"
    with v da show ?thesis by (simp add: number_text_def)
  next
    assume "m \<in> lang (Seq (Cls (\<lambda>c. c = hyphen)) (Plus (Cls is_digit)))"
    then obtain d b where "m = d @ b" "d \<in> lang (Cls (\<lambda>c. c = hyphen))"
      "b \<in> lang (Plus (Cls is_digit))"
      by (rule lang_SeqE)
    then have "m = [hyphen] @ b" and "digits b" by (simp_all add: lang_digits)
    with v da show ?thesis unfolding number_text_def by blast
  qed
next
  assume "number_text v"
  then consider "digits v" | a b where "v = a @ [hyphen] @ b" "digits a" "digits b"
    unfolding number_text_def by blast
  then show "v \<in> lang number_group"
  proof cases
    case 1
    then have "v \<in> lang (Plus (Cls is_digit))" by (simp add: lang_digits)
    moreover have "[] \<in> lang (Opt (Seq (Cls (\<lambda>c. c = hyphen)) (Plus (Cls is_digit))))"
      by simp
    ultimately have "v @ [] \<in> lang number_group"
      unfolding number_group_def by (rule lang_SeqI)
    then show ?thesis by simp
  next
    case 2
    from 2(3) have "b \<in> lang (Plus (Cls is_digit))" by (simp add: lang_digits)
    moreover have "[hyphen] \<in> lang (Cls (\<lambda>c. c = hyphen))" by simp
    ultimately have "[hyphen] @ b \<in> lang (Seq (Cls (\<lambda>c. c = hyphen)) (Plus (Cls is_digit)))"
      by (rule lang_SeqI[rotated])
    then have "[hyphen] @ b \<in> lang (Opt (Seq (Cls (\<lambda>c. c = hyphen)) (Plus (Cls is_digit))))"
      by simp
    moreover from 2(2) have "a \<in> lang (Plus (Cls is_digit))" by (simp add: lang_digits)
    ultimately have "a @ [hyphen] @ b \<in> lang number_group"
      unfolding number_group_def by (rule lang_SeqI[rotated])
    with 2(1) show ?thesis by simp
  qed
qed

lemma map_canon_eq_append:
  "map canon u = x @ y \<Longrightarrow> \<exists>m s. u = m @ s \<and> map canon m = x \<and> map canon s = y"
  by (auto simp: map_eq_append_conv)

text \<open>The words of \<open>\s*(?:x|y)z?\<close>.\<close>

lemma lang_unit_tail:
  "w \<in> lang (Seq (Star (Cls is_space)) (Seq (Alt (word_ci x) (word_ci y)) (Opt (word_ci z)))) \<longleftrightarrow>
     (\<exists>ws u. w = ws @ u \<and> (\<forall>c\<in>set ws. is_space c) \<and>
        (map canon u = map canon x \<or> map canon u = map canon y \<or>
         map canon u = map canon x @ map canon z \<or>
         map canon u = map canon y @ map canon z))"
  (is "?L \<longleftrightarrow> ?R")
proof
  assume ?L
  then obtain ws u where w: "w = ws @ u" and ws: "ws \<in> lang (Star (Cls is_space))"
    and u: "u \<in> lang (Seq (Alt (word_ci x) (word_ci y)) (Opt (word_ci z)))"
    by (rule lang_SeqE)
  from u obtain m s where u': "u = m @ s" and m: "m \<in> lang (Alt (word_ci x) (word_ci y))"
    and s: "s \<in> lang (Opt (word_ci z))"
    by (rule lang_SeqE)
  from m have m': "map canon m = map canon x \<or> map canon m = map canon y"
    by (simp add: lang_word_ci)
  from s have s': "s = [] \<or> map canon s = map canon z"
    by (simp add: lang_word_ci)
  from m' s' u' have "map canon u = map canon x \<or> map canon u = map canon y \<or>
         map canon u = map canon x @ map canon z \<or>
         map canon u = map canon y @ map canon z"
    by auto
  moreover from ws have "\<forall>c\<in>set ws. is_space c" by (simp only: lang_Star_Cls) simp
  ultimately show ?R using w by blast
next
  assume ?R
  then obtain ws u where w: "w = ws @ u" and ws: "\<forall>c\<in>set ws. is_space c"
    and u: "map canon u = map canon x \<or> map canon u = map canon y \<or>
         map canon u = map canon x @ map canon z \<or>
         map canon u = map canon y @ map canon z"
    by blast
  have "\<exists>m s. u = m @ s \<and> (map canon m = map canon x \<or> map canon m = map canon y)
                  \<and> (s = [] \<or> map canon s = map canon z)"
  proof -
    consider "map canon u = map canon x \<or> map canon u = map canon y"
      | "map canon u = map canon x @ map canon z"
      | "map canon u = map canon y @ map canon z"
      using u by blast
    then show ?thesis
    proof cases
      case 1
      then have "u = u @ [] \<and> (map canon u = map canon x \<or> map canon u = map canon y)
                  \<and> ([] = [] \<or> map canon [] = map canon z)" by simp
      then show ?thesis by blast
    next
      case 2
      from map_canon_eq_append [OF 2] show ?thesis by blast
    next
      case 3
      from map_canon_eq_append [OF 3] show ?thesis by blast
    qed
  qed
  then obtain m s where u': "u = m @ s"
    and m: "map canon m = map canon x \<or> map canon m = map canon y"
    and s: "s = [] \<or> map canon s = map canon z" by blast
  from m have "m \<in> lang (Alt (word_ci x) (word_ci y))" by (simp add: lang_word_ci)
  moreover from s have "s \<in> lang (Opt (word_ci z))" by (simp add: lang_word_ci)
  ultimately have "m @ s \<in> lang (Seq (Alt (word_ci x) (word_ci y)) (Opt (word_ci z)))"
    by (rule lang_SeqI)
  moreover from ws have "ws \<in> lang (Star (Cls is_space))" by (simp only: lang_Star_Cls) simp
  ultimately have "ws @ m @ s \<in> lang (Seq (Star (Cls is_space))
      (Seq (Alt (word_ci x) (word_ci y)) (Opt (word_ci z))))"
    by (rule lang_SeqI[rotated])
  with w u' show ?L by simp
qed

lemma unit_words:
  "unit_word [x, y, x @ z, y @ z] u \<longleftrightarrow>
     map canon u = map canon x \<or> map canon u = map canon y \<or>
     map canon u = map canon x @ map canon z \<or> map canon u = map canon y @ map canon z"
  by (simp add: unit_word_def)

lemma minute_words_eq:
  "minute_words = [(js ''min''), (js ''minute''), (js ''min'') @ (js ''s''), (js ''minute'') @ (js ''s'')]"
  by (simp add: minute_words_def js_def)

lemma hour_words_eq:
  "hour_words = [(js ''hr''), (js ''hour''), (js ''hr'') @ (js ''s''), (js ''hour'') @ (js ''s'')]"
  by (simp add: hour_words_def js_def)

lemma lang_minute_tail:
  "w \<in> lang minute_tail \<longleftrightarrow>
     (\<exists>ws u. w = ws @ u \<and> (\<forall>c\<in>set ws. is_space c) \<and> unit_word minute_words u)"
  unfolding minute_tail_def lang_unit_tail minute_words_eq unit_words ..

lemma lang_hour_tail:
  "w \<in> lang hour_tail \<longleftrightarrow>
     (\<exists>ws u. w = ws @ u \<and> (\<forall>c\<in>set ws. is_space c) \<and> unit_word hour_words u)"
  unfolding hour_tail_def lang_unit_tail hour_words_eq unit_words ..

text \<open>The matcher finds a duration expression exactly when the text contains one.\<close>

lemma match_units:
  assumes tail: "\<And>w. w \<in> lang t \<longleftrightarrow>
     (\<exists>ws u. w = ws @ u \<and> (\<forall>c\<in>set ws. is_space c) \<and> unit_word units u)"
  shows "match_rx number_group t text = Some v \<Longrightarrow>
           number_text v \<and> (\<exists>pre e post. text = pre @ e @ post \<and> duration_expression units v e)"
    and "match_rx number_group t text = None \<longleftrightarrow> \<not> contains_expression units text"
proof -
  assume "match_rx number_group t text = Some v"
  from match_rx_Some [OF this] obtain pre w post where
    v: "v \<in> lang number_group" and w: "w \<in> lang t" and t: "text = pre @ v @ w @ post"
    by blast
  from v have nv: "number_text v" by (simp only: lang_number_group)
  from w obtain ws u where "w = ws @ u" "\<forall>c\<in>set ws. is_space c" "unit_word units u"
    using tail by blast
  with nv have "duration_expression units v (v @ w)"
    unfolding duration_expression_def by blast
  moreover from t have "text = pre @ (v @ w) @ post" by simp
  ultimately show "number_text v \<and> (\<exists>pre e post. text = pre @ e @ post \<and> duration_expression units v e)"
    using nv by blast
next
  show "match_rx number_group t text = None \<longleftrightarrow> \<not> contains_expression units text"
  proof -
    have "contains_expression units text \<longleftrightarrow>
          (\<exists>pre v w post. v \<in> lang number_group \<and> w \<in> lang t \<and> text = pre @ v @ w @ post)"
      (is "?C \<longleftrightarrow> ?M")
    proof
      assume ?C
      then obtain pre n e post ws u where "text = pre @ e @ post" "e = n @ ws @ u" "number_text n"
        "\<forall>c\<in>set ws. is_space c" "unit_word units u"
        unfolding contains_expression_def duration_expression_def by blast
      then have "n \<in> lang number_group" "ws @ u \<in> lang t" "text = pre @ n @ (ws @ u) @ post"
        using tail by (auto simp only: lang_number_group append_assoc)
      then show ?M by blast
    next
      assume ?M
      then obtain pre v w post where
        v: "v \<in> lang number_group" and w: "w \<in> lang t" and t: "text = pre @ v @ w @ post"
        by blast
      from v have nv: "number_text v" by (simp only: lang_number_group)
      from w obtain ws u where "w = ws @ u" "\<forall>c\<in>set ws. is_space c" "unit_word units u"
        using tail by blast
      with nv have "duration_expression units v (v @ w)"
        unfolding duration_expression_def by blast
      moreover from t have "text = pre @ (v @ w) @ post" by simp
      ultimately show ?C unfolding contains_expression_def by blast
    qed
    then show ?thesis by (simp only: match_rx_None_iff)
  qed
qed

lemmas minuteMatch_Some = match_units(1) [of minute_tail minute_words, OF lang_minute_tail, folded minuteMatch_def]
lemmas minuteMatch_None_iff = match_units(2) [of minute_tail minute_words, OF lang_minute_tail, folded minuteMatch_def]
lemmas hourMatch_Some = match_units(1) [of hour_tail hour_words, OF lang_hour_tail, folded hourMatch_def]
lemmas hourMatch_None_iff = match_units(2) [of hour_tail hour_words, OF lang_hour_tail, folded hourMatch_def]

lemma digits_no_dash: "digits a \<Longrightarrow> hyphen \<notin> set a"
  by (auto simp: digits_def is_digit_def hyphen_def)

lemma lower_bound_digits: "digits a \<Longrightarrow> lower_bound a = a"
  by (simp add: lower_bound_def digits_no_dash)

lemma lower_bound_range: "digits a \<Longrightarrow> lower_bound (a @ hyphen # b) = a"
proof -
  assume "digits a"
  then have "\<forall>c\<in>set a. c \<noteq> hyphen" using digits_no_dash by blast
  then have "takeWhile (\<lambda>c. c \<noteq> hyphen) (a @ hyphen # b) = a"
    by (simp add: takeWhile_append2)
  then show ?thesis by (simp add: lower_bound_def)
qed

lemma parseFloat_digits: "digits a \<Longrightarrow> parseFloat a = Some (of_nat (digits_val a))"
proof -
  assume d: "digits a"
  then have tw: "takeWhile is_digit a = a" and dw: "dropWhile is_digit a = []"
    by (simp_all add: digits_def)
  from d have "a \<noteq> []" by (simp add: digits_def)
  then show ?thesis unfolding parseFloat_def tw dw by simp
qed

lemma seconds_of_digits:
  "digits a \<Longrightarrow> floor_times (parseFloat a) 60 = IntV (60 * int (digits_val a))"
  "digits a \<Longrightarrow> floor_times (parseFloat a) 3600 = IntV (3600 * int (digits_val a))"
proof -
  have "\<lfloor>(of_nat n :: rat) * of_int k\<rfloor> = k * int n" for n k
  proof -
    have "(of_nat n :: rat) * of_int k = of_int (k * int n)" by simp
    then show ?thesis by (simp only: floor_of_int)
  qed
  from this [of _ 60] this [of _ 3600]
  show "digits a \<Longrightarrow> floor_times (parseFloat a) 60 = IntV (60 * int (digits_val a))"
    and "digits a \<Longrightarrow> floor_times (parseFloat a) 3600 = IntV (3600 * int (digits_val a))"
    by (simp_all add: parseFloat_digits floor_times_def)
qed

lemma number_text_lower_bound:
  assumes "number_text v"
  shows "digits (lower_bound v)"
    and "hyphen \<in> set v \<Longrightarrow> \<exists>b. v = lower_bound v @ [hyphen] @ b \<and> digits b"
proof -
  from assms consider "digits v" | a b where "v = a @ [hyphen] @ b" "digits a" "digits b"
    unfolding number_text_def by blast
  then have "digits (lower_bound v) \<and> (hyphen \<in> set v \<longrightarrow> (\<exists>b. v = lower_bound v @ [hyphen] @ b \<and> digits b))"
  proof cases
    case 1
    then show ?thesis by (simp add: lower_bound_digits digits_no_dash)
  next
    case 2
    from 2(2) have "lower_bound (a @ hyphen # b) = a" by (rule lower_bound_range)
    with 2 show ?thesis by simp
  qed
  then show "digits (lower_bound v)"
    and "hyphen \<in> set v \<Longrightarrow> \<exists>b. v = lower_bound v @ [hyphen] @ b \<and> digits b"
    by blast+
qed

text \<open>
  C7. A text that contains a minute-family expression and an hour-family expression is
  matched by the minute pattern, and the result is sixty times the number captured there
  (its lower bound, for a range); the hour match, which exists, is not used.
\<close>

theorem minutes_take_priority:
  assumes "contains_expression minute_words text" and "contains_expression hour_words text"
  shows "\<exists>val. minuteMatch text = Some val \<and> hourMatch text \<noteq> None
           \<and> (\<exists>pre e post. text = pre @ e @ post \<and> duration_expression minute_words val e)
           \<and> extractTimeInSeconds text = Some (IntV (60 * int (digits_val (lower_bound val))))"
proof -
  from assms(1) have "minuteMatch text \<noteq> None" by (simp only: minuteMatch_None_iff) simp
  then obtain val where val: "minuteMatch text = Some val" by blast
  from assms(2) have h: "hourMatch text \<noteq> None" by (simp only: hourMatch_None_iff) simp
  from minuteMatch_Some [OF val] have nt: "number_text val"
    and ex: "\<exists>pre e post. text = pre @ e @ post \<and> duration_expression minute_words val e"
    by blast+
  from nt have "digits (lower_bound val)" by (rule number_text_lower_bound(1))
  then have "floor_times (parseFloat (lower_bound val)) 60 = IntV (60 * int (digits_val (lower_bound val)))"
    by (rule seconds_of_digits(1))
  with val have "extractTimeInSeconds text = Some (IntV (60 * int (digits_val (lower_bound val))))"
    by (simp add: extractTimeInSeconds_def)
  with val h ex show ?thesis by blast
qed

text \<open>
  C6. Whenever the captured number contains a hyphen it has the shape \<open>a-b\<close> with digit
  groups \<open>a\<close> and \<open>b\<close>, and the result is the value of \<open>a\<close> times 60 (minute pattern) or
  times 3600 (hour pattern); "Marinate for 10-15 mins" captures \<open>10-15\<close> and gives 600.
\<close>

theorem range_uses_lower_bound:
  "(minuteMatch text = Some val \<and> hyphen \<in> set val \<longrightarrow>
      (\<exists>a b. val = a @ [hyphen] @ b \<and> digits a \<and> digits b
            \<and> extractTimeInSeconds text = Some (IntV (60 * int (digits_val a)))))
   \<and> (minuteMatch text = None \<and> hourMatch text = Some val \<and> hyphen \<in> set val \<longrightarrow>
      (\<exists>a b. val = a @ [hyphen] @ b \<and> digits a \<and> digits b
            \<and> extractTimeInSeconds text = Some (IntV (3600 * int (digits_val a)))))
   \<and> minuteMatch (js ''Marinate for 10-15 mins'') = Some (js ''10-15'')
   \<and> extractTimeInSeconds (js ''Marinate for 10-15 mins'') = Some (IntV 600)"
proof (intro conjI impI)
  assume "minuteMatch text = Some val \<and> hyphen \<in> set val"
  then have m: "minuteMatch text = Some val" and d: "hyphen \<in> set val" by simp_all
  from minuteMatch_Some [OF m] have nt: "number_text val" by blast
  from number_text_lower_bound [OF nt] d obtain b where
    "digits (lower_bound val)" "val = lower_bound val @ [hyphen] @ b" "digits b"
    by blast
  moreover from this(1) m
  have "extractTimeInSeconds text = Some (IntV (60 * int (digits_val (lower_bound val))))"
    by (simp add: extractTimeInSeconds_def seconds_of_digits(1))
  ultimately show "\<exists>a b. val = a @ [hyphen] @ b \<and> digits a \<and> digits b
            \<and> extractTimeInSeconds text = Some (IntV (60 * int (digits_val a)))"
    by blast
next
  assume "minuteMatch text = None \<and> hourMatch text = Some val \<and> hyphen \<in> set val"
  then have n: "minuteMatch text = None" and m: "hourMatch text = Some val"
    and d: "hyphen \<in> set val" by simp_all
  from hourMatch_Some [OF m] have nt: "number_text val" by blast
  from number_text_lower_bound [OF nt] d obtain b where
    "digits (lower_bound val)" "val = lower_bound val @ [hyphen] @ b" "digits b"
    by blast
  moreover from this(1) n m
  have "extractTimeInSeconds text = Some (IntV (3600 * int (digits_val (lower_bound val))))"
    by (simp add: extractTimeInSeconds_def seconds_of_digits(2))
  ultimately show "\<exists>a b. val = a @ [hyphen] @ b \<and> digits a \<and> digits b
            \<and> extractTimeInSeconds text = Some (IntV (3600 * int (digits_val a)))"
    by blast
next
  show "minuteMatch (js ''Marinate for 10-15 mins'') = Some (js ''10-15'')" by code_simp
  show "extractTimeInSeconds (js ''Marinate for 10-15 mins'') = Some (IntV 600)" by code_simp
qed

text \<open>A minute range and an hour range.\<close>

theorem range_uses_lower_bound_witness:
  "minuteMatch (js ''Marinate for 10-15 mins'') = Some (js ''10-15'') \<and> hyphen \<in> set (js ''10-15'')
   \<and> (\<exists>a b. (js ''10-15'') = a @ [hyphen] @ b \<and> digits a \<and> digits b
          \<and> extractTimeInSeconds (js ''Marinate for 10-15 mins'') = Some (IntV (60 * int (digits_val a))))
   \<and> minuteMatch (js ''Roast for 1-2 hours'') = None \<and> hourMatch (js ''Roast for 1-2 hours'') = Some (js ''1-2'')
   \<and> hyphen \<in> set (js ''1-2'')
   \<and> (\<exists>a b. (js ''1-2'') = a @ [hyphen] @ b \<and> digits a \<and> digits b
          \<and> extractTimeInSeconds (js ''Roast for 1-2 hours'') = Some (IntV (3600 * int (digits_val a))))"
proof -
  have m: "minuteMatch (js ''Marinate for 10-15 mins'') = Some (js ''10-15'')" by code_simp
  have d: "hyphen \<in> set (js ''10-15'')" by (simp add: js_def hyphen_def)
  have n: "minuteMatch (js ''Roast for 1-2 hours'') = None" by code_simp
  have h: "hourMatch (js ''Roast for 1-2 hours'') = Some (js ''1-2'')" by code_simp
  have e: "hyphen \<in> set (js ''1-2'')" by (simp add: js_def hyphen_def)
  from range_uses_lower_bound [of "(js ''Marinate for 10-15 mins'')" "(js ''10-15'')"] m d
  have 1: "\<exists>a b. (js ''10-15'') = a @ [hyphen] @ b \<and> digits a \<and> digits b
          \<and> extractTimeInSeconds (js ''Marinate for 10-15 mins'') = Some (IntV (60 * int (digits_val a)))"
    by blast
  from range_uses_lower_bound [of "(js ''Roast for 1-2 hours'')" "(js ''1-2'')"] n h e
  have 2: "\<exists>a b. (js ''1-2'') = a @ [hyphen] @ b \<and> digits a \<and> digits b
          \<and> extractTimeInSeconds (js ''Roast for 1-2 hours'') = Some (IntV (3600 * int (digits_val a)))"
    by blast
  from m d 1 n h e 2 show ?thesis by blast
qed

lemma sample_minute_expression: "duration_expression minute_words (js ''10'') (js ''10 minutes'')"
  unfolding duration_expression_def
  by (rule exI [of _ "(js '' '')"], rule exI [of _ "(js ''minutes'')"])
     (simp add: number_text_def digits_def is_digit_def is_space_def unit_word_def
        minute_words_def js_def)

lemma sample_hour_expression: "duration_expression hour_words (js ''1'') (js ''1 hour'')"
  unfolding duration_expression_def
  by (rule exI [of _ "(js '' '')"], rule exI [of _ "(js ''hour'')"])
     (simp add: number_text_def digits_def is_digit_def is_space_def unit_word_def
        hour_words_def js_def)

text \<open>The hour expression comes first in this text, and the minutes are used all the same.\<close>

theorem minutes_take_priority_witness:
  "contains_expression minute_words (js ''Bake 1 hour, then rest 10 minutes'')
   \<and> contains_expression hour_words (js ''Bake 1 hour, then rest 10 minutes'')
   \<and> minuteMatch (js ''Bake 1 hour, then rest 10 minutes'') = Some (js ''10'')
   \<and> hourMatch (js ''Bake 1 hour, then rest 10 minutes'') = Some (js ''1'')
   \<and> extractTimeInSeconds (js ''Bake 1 hour, then rest 10 minutes'') = Some (IntV 600)"
proof -
  let ?T = "(js ''Bake 1 hour, then rest 10 minutes'')"
  have "?T = (js ''Bake 1 hour, then rest '') @ (js ''10 minutes'') @ []" by (simp add: js_def)
  with sample_minute_expression have c1: "contains_expression minute_words ?T"
    unfolding contains_expression_def by blast
  have "?T = (js ''Bake '') @ (js ''1 hour'') @ (js '', then rest 10 minutes'')" by (simp add: js_def)
  with sample_hour_expression have c2: "contains_expression hour_words ?T"
    unfolding contains_expression_def by blast
  have m: "minuteMatch ?T = Some (js ''10'')" by code_simp
  have h: "hourMatch ?T = Some (js ''1'')" by code_simp
  from minutes_take_priority [OF c1 c2] obtain val where
    "minuteMatch ?T = Some val"
    "extractTimeInSeconds ?T = Some (IntV (60 * int (digits_val (lower_bound val))))"
    by blast
  with m have "extractTimeInSeconds ?T = Some (IntV (60 * int (digits_val (lower_bound (js ''10'')))))"
    by simp
  moreover have "digits_val (lower_bound (js ''10'')) = 10" by code_simp
  ultimately have "extractTimeInSeconds ?T = Some (IntV 600)" by simp
  with c1 c2 m h show ?thesis by blast
qed

text \<open>
  White space that is not ASCII separates number and unit as well: a no-break space
  (U+00A0) before the unit, in a range, after an hour expression, and in front of a later
  minute expression.
\<close>

lemma no_break_space_examples:
  "extractTimeInSeconds (js ''Marinate for 10-15'' @ [0xA0] @ js ''mins'') = Some (IntV 600)"
  "extractTimeInSeconds (js ''Bake 1 hour, then rest 10'' @ [0xA0] @ js ''minutes'') = Some (IntV 600)"
  "extractTimeInSeconds (js ''5'' @ [0xA0] @ js ''min, 1 hour, 10 min'') = Some (IntV 300)"
  by code_simp+

section \<open>Properties of the Step-Ingredient Matcher\<close>

lemma zip_upt_mem: "i < length xs \<Longrightarrow> (xs ! i, i) \<in> set (zip xs [0..<length xs])"
  by (auto simp: set_zip intro!: exI[of _ i])

lemma str_includes_Nil: "str_includes s []"
  by (induction s) simp_all

text \<open>
  C10. An ingredient whose name is the empty string is listed for every step text: the
  empty string occurs in every string, and the full-name test has no minimum length.
\<close>

theorem empty_name_listed:
  assumes "i < length ings" and "name (ings ! i) = []"
  shows "tag (ings ! i) i \<in> set (stepIngredients lower text ings)"
proof -
  have "(ings ! i, i) \<in> set (zip ings [0..<length ings])"
    using assms(1) by (rule zip_upt_mem)
  then have "tag (ings ! i) i \<in> set (map (\<lambda>(ing, idx). tag ing idx) (zip ings [0..<length ings]))"
    by force
  moreover have "ingredient_matches lower text (name (tag (ings ! i) i))"
    using assms(2) by (simp add: ingredient_matches_def tag_def toLowerCase_def str_includes_Nil)
  ultimately show ?thesis by (simp add: stepIngredients_def)
qed

text \<open>The unnamed third ingredient of the sample recipe is listed for the step "Add the broth".\<close>

theorem empty_name_listed_witness:
  "2 < length (ingredients dinner) \<and> name (ingredients dinner ! 2) = []
   \<and> tag (ingredients dinner ! 2) 2
       \<in> set (stepIngredients lower_latin1 (js ''Add the broth'') (ingredients dinner))"
proof -
  have h1: "2 < length (ingredients dinner)" by (simp add: dinner_def)
  have h2: "name (ingredients dinner ! 2) = []" by (simp add: dinner_def)
  from empty_name_listed [OF h1 h2, of lower_latin1 "js ''Add the broth''"] h1 h2
  show ?thesis by simp
qed

declare split_runs.simps [simp del]













section \<open>Properties of the Quantity Scaler\<close>

lemma leading_quantity_None_iff:
  "leading_quantity amt = None \<longleftrightarrow> amt = [] \<or> \<not> is_digit (hd amt)"
proof -
  have "takeWhile is_digit amt = [] \<longleftrightarrow> amt = [] \<or> \<not> is_digit (hd amt)"
    by (cases amt) simp_all
  moreover have "leading_quantity amt = None \<longleftrightarrow> takeWhile is_digit amt = []"
    by (simp add: leading_quantity_def Let_def split: list.splits)
  ultimately show ?thesis by simp
qed

text \<open>
  C9. An amount that does not begin with a numeric quantity, which is one that is empty
  or does not begin with a digit, comes back unchanged for every pair of serving counts
  and every rendering of numbers; the function is total, so nothing is thrown.
\<close>

theorem scaleAmount_unparsed_unchanged:
  "(leading_quantity amt = None \<longleftrightarrow> amt = [] \<or> \<not> is_digit (hd amt))
   \<and> (leading_quantity amt = None \<longrightarrow>
        scaleAmount render amt originalServings desiredServings = amt)"
proof (intro conjI impI)
  show "leading_quantity amt = None \<longleftrightarrow> amt = [] \<or> \<not> is_digit (hd amt)"
    by (rule leading_quantity_None_iff)
next
  assume "leading_quantity amt = None"
  then show "scaleAmount render amt originalServings desiredServings = amt"
    by (simp add: scaleAmount_def)
qed

text \<open>
  "a pinch" from 2 to 4 servings, with a rendering that would show in the result if it
  were used, and a parsed amount for contrast.
\<close>

theorem scaleAmount_unparsed_unchanged_witness:
  "leading_quantity (js ''a pinch'') = None
   \<and> scaleAmount (\<lambda>q. js ''#'') (js ''a pinch'') 2 4 = js ''a pinch''
   \<and> leading_quantity (js ''200 g'') = Some (200, js '' g'')"
proof -
  have "\<not> is_digit (hd (js ''a pinch''))" by (simp add: is_digit_def js_def)
  with scaleAmount_unparsed_unchanged [of "js ''a pinch''" "\<lambda>q. js ''#''" 2 4]
  have "leading_quantity (js ''a pinch'') = None \<and> scaleAmount (\<lambda>q. js ''#'') (js ''a pinch'') 2 4 = js ''a pinch''"
    by blast
  moreover have "leading_quantity (js ''200 g'') = Some (200, js '' g'')" by code_simp
  ultimately show ?thesis by blast
qed

section \<open>Properties of the cook-mode session\<close>

lemma funpow_fixed: "f x = x \<Longrightarrow> (f ^^ n) x = x"
  by (induction n) simp_all

lemma tick_not_running: "timer s = Some t \<Longrightarrow> \<not> isRunning t \<Longrightarrow> tick s = s"
  by (simp add: tick_def)

text \<open>
  C4. A tick on a running timer with more than one second left takes one second off and
  leaves it running; with one second left it expires the timer (remaining 0, not
  running), and any number of further ticks changes nothing.
\<close>

theorem tick_countdown:
  assumes "timer s = Some t" and "isRunning t"
  shows "(remaining t > 1 \<longrightarrow> tick s = s\<lparr>timer := Some (t\<lparr>remaining := remaining t - 1\<rparr>)\<rparr>)
       \<and> (remaining t = 1 \<longrightarrow>
            tick s = s\<lparr>timer := Some (t\<lparr>remaining := 0, isRunning := False\<rparr>)\<rparr>
            \<and> (\<forall>n. (tick ^^ n) (tick s) = tick s))"
proof (intro conjI impI)
  assume "remaining t > 1"
  with assms show "tick s = s\<lparr>timer := Some (t\<lparr>remaining := remaining t - 1\<rparr>)\<rparr>"
    by (simp add: tick_def)
next
  assume one: "remaining t = 1"
  with assms show e: "tick s = s\<lparr>timer := Some (t\<lparr>remaining := 0, isRunning := False\<rparr>)\<rparr>"
    by (simp add: tick_def)
  have "tick (tick s) = tick s"
    by (rule tick_not_running [where t = "t\<lparr>remaining := 0, isRunning := False\<rparr>"])
       (simp_all add: e)
  then show "\<forall>n. (tick ^^ n) (tick s) = tick s"
    by (simp add: funpow_fixed)
qed

text \<open>A running one-minute timer with two seconds left, ticked twice and then five times more.\<close>

theorem tick_countdown_witness:
  "timer (tick (running_session 2)) = timer (running_session 1)
   \<and> timer (tick (running_session 1)) = timer expired_session
   \<and> (tick ^^ 5) (tick (running_session 1)) = tick (running_session 1)"
proof -
  let ?t2 = "\<lparr>duration = 60, remaining = 2, isRunning = True, stepIndex = 0\<rparr>"
  let ?t1 = "\<lparr>duration = 60, remaining = 1, isRunning = True, stepIndex = 0\<rparr>"
  have t2: "timer (running_session 2) = Some ?t2" and t1: "timer (running_session 1) = Some ?t1"
    by (simp_all add: running_session_def)
  have r2: "isRunning ?t2" and r1: "isRunning ?t1"
    by simp_all
  have "remaining ?t2 > 1"
    by simp
  with tick_countdown [OF t2 r2]
  have "tick (running_session 2) = running_session 2\<lparr>timer := Some (?t2\<lparr>remaining := remaining ?t2 - 1\<rparr>)\<rparr>"
    by blast
  then have a: "timer (tick (running_session 2)) = timer (running_session 1)"
    by (simp add: running_session_def)
  have "remaining ?t1 = 1"
    by simp
  with tick_countdown [OF t1 r1]
  have e: "tick (running_session 1) = running_session 1\<lparr>timer := Some (?t1\<lparr>remaining := 0, isRunning := False\<rparr>)\<rparr>"
    and c: "\<forall>n. (tick ^^ n) (tick (running_session 1)) = tick (running_session 1)"
    by blast+
  from e have b: "timer (tick (running_session 1)) = timer expired_session"
    by (simp add: running_session_def expired_session_def)
  from a b c show ?thesis by blast
qed

lemma rest_recipe_started: "startTimer rest_recipe initial = running_session 60"
  by code_simp

lemma tick_running_session:
  "1 < n \<Longrightarrow> tick (running_session n) = running_session (n - 1)"
  "tick (running_session 1) = expired_session"
  by (simp_all add: tick_def running_session_def expired_session_def)

lemma running_session_reachable:
  "k < 60 \<Longrightarrow> reachable rest_recipe (running_session (60 - int k))"
proof (induction k)
  case 0
  from reach_perform [OF reach_initial, of rest_recipe StartTimer] show ?case
    by (simp add: rest_recipe_started)
next
  case (Suc k)
  then have "reachable rest_recipe (running_session (60 - int k))" by simp
  from reach_perform [OF this, of Tick] Suc.prems show ?case
    by (simp add: tick_running_session(1) algebra_simps)
qed

lemma expired_session_reachable: "reachable rest_recipe expired_session"
proof -
  from running_session_reachable [of 59] have "reachable rest_recipe (running_session 1)" by simp
  from reach_perform [OF this, of Tick] show ?thesis
    by (simp add: tick_running_session(2))
qed

text \<open>
  The handler \<open>toggleTimer\<close> has no test of \<open>remaining\<close>: applied to the expired
  timer of a reachable session it sets the running flag, so the session does change.
\<close>

theorem toggle_expired_counterexample:
  "reachable rest_recipe expired_session
   \<and> remaining (the (timer expired_session)) = 0
   \<and> timer (toggleTimer expired_session) =
       Some \<lparr>duration = 60, remaining = 0, isRunning = True, stepIndex = 0\<rparr>
   \<and> toggleTimer expired_session \<noteq> expired_session"
proof -
  have a: "timer (toggleTimer expired_session) =
       Some \<lparr>duration = 60, remaining = 0, isRunning = True, stepIndex = 0\<rparr>"
    by (simp add: toggleTimer_def expired_session_def)
  have b: "timer expired_session = Some \<lparr>duration = 60, remaining = 0, isRunning = False, stepIndex = 0\<rparr>"
    by (simp add: expired_session_def)
  from a b have "timer (toggleTimer expired_session) \<noteq> timer expired_session" by simp
  then have "toggleTimer expired_session \<noteq> expired_session" by auto
  with a b expired_session_reachable show ?thesis by simp
qed

text \<open>
  C2, as the code has it. \<open>toggleTimer\<close> flips the running flag of an existing timer and
  changes nothing else, and leaves a session without timer as it is. It does the same on
  an expired timer; what keeps an expired timer from being resumed is the view, which
  does not offer the pause/resume button once \<open>remaining\<close> is 0.
\<close>

theorem toggleTimer_effect:
  "(timer s = None \<longrightarrow> toggleTimer s = s)
   \<and> (\<forall>t. timer s = Some t \<longrightarrow>
          toggleTimer s = s\<lparr>timer := Some (t\<lparr>isRunning := \<not> isRunning t\<rparr>)\<rparr>
          \<and> (remaining t = 0 \<longrightarrow> \<not> toggle_offered s))"
  by (simp add: toggleTimer_def toggle_offered_def)

text \<open>The three cases at the initial, a running and the expired sample session.\<close>

theorem toggleTimer_effect_witness:
  "toggleTimer initial = initial
   \<and> timer (toggleTimer (running_session 2)) =
       Some \<lparr>duration = 60, remaining = 2, isRunning = False, stepIndex = 0\<rparr>
   \<and> \<not> toggle_offered expired_session"
proof -
  let ?t2 = "\<lparr>duration = 60, remaining = 2, isRunning = True, stepIndex = 0\<rparr>"
  let ?t0 = "\<lparr>duration = 60, remaining = 0, isRunning = False, stepIndex = 0\<rparr>"
  have n: "timer initial = None" by (simp add: initial_def)
  have t2: "timer (running_session 2) = Some ?t2" by (simp add: running_session_def)
  have t0: "timer expired_session = Some ?t0" by (simp add: expired_session_def)
  have z: "remaining ?t0 = 0" by simp
  from toggleTimer_effect [of initial] n have a: "toggleTimer initial = initial" by blast
  from toggleTimer_effect [of "running_session 2"] t2
  have "toggleTimer (running_session 2) = running_session 2\<lparr>timer := Some (?t2\<lparr>isRunning := \<not> isRunning ?t2\<rparr>)\<rparr>"
    by blast
  then have b: "timer (toggleTimer (running_session 2)) =
       Some \<lparr>duration = 60, remaining = 2, isRunning = False, stepIndex = 0\<rparr>"
    by simp
  from toggleTimer_effect [of expired_session] t0 z have c: "\<not> toggle_offered expired_session" by blast
  from a b c show ?thesis by blast
qed

lemma parseFloat_nonneg: "parseFloat s = Some q \<Longrightarrow> 0 \<le> q"
  by (auto simp: parseFloat_def Let_def split: if_splits list.splits)

lemma floor_times_nonneg: "0 \<le> k \<Longrightarrow> floor_times (parseFloat s) k = IntV d \<Longrightarrow> 0 \<le> d"
  by (auto simp: floor_times_def split: option.splits dest!: parseFloat_nonneg)

lemma extract_nonneg: "extractTimeInSeconds text = Some (IntV d) \<Longrightarrow> 0 \<le> d"
  by (auto simp: extractTimeInSeconds_def split: option.splits dest: floor_times_nonneg[rotated])

lemma startTimer_cases:
  "startTimer r s = s \<or>
   (\<exists>d>0. startTimer r s = s\<lparr>timer := Some \<lparr>duration = d, remaining = d, isRunning = True,
                                  stepIndex = currentStepIndex s\<rparr>\<rparr>)"
proof (cases "detectedDuration r s")
  case None
  then show ?thesis by (simp add: startTimer_def)
next
  case (Some n)
  show ?thesis
  proof (cases n)
    case NaN
    with Some show ?thesis by (simp add: startTimer_def)
  next
    case (IntV d)
    with Some have "extractTimeInSeconds (the (currentStepText r s)) = Some (IntV d)"
      by (auto simp: detectedDuration_def split: option.splits)
    then have "0 \<le> d" by (rule extract_nonneg)
    show ?thesis
    proof (cases "d = 0")
      case True
      with Some IntV show ?thesis by (simp add: startTimer_def)
    next
      case False
      with \<open>0 \<le> d\<close> have "0 < d" by simp
      moreover from False Some IntV
      have "startTimer r s = s\<lparr>timer := Some \<lparr>duration = d, remaining = d, isRunning = True,
                                  stepIndex = currentStepIndex s\<rparr>\<rparr>"
        by (simp add: startTimer_def)
      ultimately show ?thesis by blast
    qed
  qed
qed

lemma timer_ok_startTimer: "timer_ok s \<Longrightarrow> timer_ok (startTimer r s)"
  using startTimer_cases [of r s] by (auto simp: timer_ok_def)

lemma timer_ok_tick: "timer_ok s \<Longrightarrow> timer_ok (tick s)"
  by (auto simp: timer_ok_def tick_def split: option.splits)

lemma timer_ok_toggleTimer: "timer_ok s \<Longrightarrow> timer_ok (toggleTimer s)"
  by (auto simp: timer_ok_def toggleTimer_def split: option.splits)

lemma timer_ok_resetTimer: "timer_ok s \<Longrightarrow> timer_ok (resetTimer s)"
  by (auto simp: timer_ok_def resetTimer_def split: option.splits)

lemma timer_ok_nav:
  "timer_ok s \<Longrightarrow> timer_ok (handleNext r s)"
  "timer_ok s \<Longrightarrow> timer_ok (handlePrev r s)"
  "timer_ok s \<Longrightarrow> timer_ok (goToTimerStep s)"
  "timer_ok s \<Longrightarrow> timer_ok (toggleIngredientCheck i s)"
  "timer_ok (stopTimer s)"
  by (auto simp: timer_ok_def handleNext_def handlePrev_def goToTimerStep_def
        toggleIngredientCheck_def stopTimer_def Let_def split: option.splits)

lemma timer_ok_perform: "timer_ok s \<Longrightarrow> timer_ok (perform r a s)"
  by (cases a)
     (simp_all add: timer_ok_startTimer timer_ok_tick timer_ok_toggleTimer timer_ok_resetTimer
        timer_ok_nav)

lemma reachable_timer_ok: "reachable r s \<Longrightarrow> timer_ok s"
proof (induction rule: reachable.induct)
  case reach_initial
  show ?case by (simp add: timer_ok_def initial_def)
next
  case (reach_perform s a)
  then show ?case by (simp only: timer_ok_perform)
qed

text \<open>In a recipe that has a step, every reachable session views one of its steps.\<close>

lemma index_ok_startTimer: "index_ok r s \<Longrightarrow> index_ok r (startTimer r s)"
  using startTimer_cases [of r s] by (auto simp: index_ok_def)

lemma index_ok_perform: "index_ok r s \<Longrightarrow> index_ok r (perform r a s)"
proof (cases a)
  case StartTimer
  assume "index_ok r s"
  then show ?thesis unfolding StartTimer perform.simps by (rule index_ok_startTimer)
qed (auto simp: index_ok_def handleNext_def handlePrev_def goToTimerStep_def tick_def
       toggleTimer_def resetTimer_def stopTimer_def toggleIngredientCheck_def Let_def
     split: option.splits)

lemma reachable_index_ok: "reachable r s \<Longrightarrow> steps r \<noteq> [] \<Longrightarrow> index_ok r s"
proof (induction rule: reachable.induct)
  case reach_initial
  then show ?case by (simp add: index_ok_def initial_def)
next
  case (reach_perform s a)
  then have "index_ok r s" by simp
  then show ?case by (rule index_ok_perform)
qed

lemma timer_handleNext: "timer (handleNext r s) = timer s"
  by (simp add: handleNext_def)

lemma timer_handlePrev: "timer (handlePrev r s) = timer s"
  by (simp add: handlePrev_def)

lemma tick_cong_timer: "timer s = timer s' \<Longrightarrow> timer (tick s) = timer (tick s')"
  by (simp add: tick_def split: option.splits)

text \<open>
  C8. In a session whose step index is within the recipe, as it is in every reachable
  session of a recipe that has a step, Next and Prev move the index by one, clamped to the
  first and last step, and change no other part of the state. A timer
  started before two Next operations is the same timer afterwards, and a tick then counts
  it down as it would have without the navigation.
\<close>

theorem navigation_frame:
  assumes "0 \<le> currentStepIndex s" and "currentStepIndex s < int (length (steps r))"
  shows "handleNext r s =
           s\<lparr>currentStepIndex := min (currentStepIndex s + 1) (int (length (steps r)) - 1)\<rparr>
       \<and> handlePrev r s = s\<lparr>currentStepIndex := max (currentStepIndex s - 1) 0\<rparr>
       \<and> timer (handleNext r s) = timer s \<and> checkedItems (handleNext r s) = checkedItems s
       \<and> timer (handlePrev r s) = timer s \<and> checkedItems (handlePrev r s) = checkedItems s
       \<and> timer (handleNext r (handleNext r (startTimer r s))) = timer (startTimer r s)
       \<and> timer (tick (handleNext r (handleNext r (startTimer r s)))) = timer (tick (startTimer r s))"
proof -
  have 1: "handleNext r s =
           s\<lparr>currentStepIndex := min (currentStepIndex s + 1) (int (length (steps r)) - 1)\<rparr>"
    using assms by (auto simp: handleNext_def min_def)
  have 2: "handlePrev r s = s\<lparr>currentStepIndex := max (currentStepIndex s - 1) 0\<rparr>"
    using assms by (auto simp: handlePrev_def max_def)
  have 3: "checkedItems (handleNext r s) = checkedItems s" "checkedItems (handlePrev r s) = checkedItems s"
    by (simp_all add: handleNext_def handlePrev_def)
  have 4: "timer (handleNext r (handleNext r (startTimer r s))) = timer (startTimer r s)"
    by (simp only: timer_handleNext)
  from 4 have 5: "timer (tick (handleNext r (handleNext r (startTimer r s)))) = timer (tick (startTimer r s))"
    by (rule tick_cong_timer)
  have 6: "timer (handleNext r s) = timer s" "timer (handlePrev r s) = timer s"
    by (rule timer_handleNext, rule timer_handlePrev)
  from 1 2 3 4 5 6 show ?thesis by blast
qed

lemma simmering_eq:
  "simmering = \<lparr>currentStepIndex = 2,
      timer = Some \<lparr>duration = 600, remaining = 600, isRunning = True, stepIndex = 2\<rparr>,
      checkedItems = {}\<rparr>"
  by code_simp

text \<open>
  The sample session with a ten-minute timer bound to index 2: two steps forward reach
  index 4 with the timer untouched; Prev from index 0 stays at 0.
\<close>

theorem navigation_frame_witness:
  "currentStepIndex simmering = 2
   \<and> currentStepIndex (handleNext dinner (handleNext dinner simmering)) = 4
   \<and> timer (handleNext dinner (handleNext dinner simmering)) =
       Some \<lparr>duration = 600, remaining = 600, isRunning = True, stepIndex = 2\<rparr>
   \<and> currentStepIndex (handlePrev dinner simmering) = 1
   \<and> currentStepIndex (handlePrev dinner initial) = 0"
proof -
  have len: "int (length (steps dinner)) = 5" by (simp add: dinner_def)
  have h: "0 \<le> currentStepIndex simmering" "currentStepIndex simmering < int (length (steps dinner))"
    by (simp_all add: simmering_eq len)
  have h0: "0 \<le> currentStepIndex initial" "currentStepIndex initial < int (length (steps dinner))"
    by (simp_all add: initial_def len)
  from navigation_frame [OF h]
  have n1: "handleNext dinner simmering = simmering\<lparr>currentStepIndex := 3\<rparr>"
    and p1: "handlePrev dinner simmering = simmering\<lparr>currentStepIndex := 1\<rparr>"
    by (simp_all add: len simmering_eq)
  have h': "0 \<le> currentStepIndex (simmering\<lparr>currentStepIndex := 3\<rparr>)"
    "currentStepIndex (simmering\<lparr>currentStepIndex := 3\<rparr>) < int (length (steps dinner))"
    by (simp_all add: len)
  from navigation_frame [OF h']
  have n2: "handleNext dinner (simmering\<lparr>currentStepIndex := 3\<rparr>) = simmering\<lparr>currentStepIndex := 4\<rparr>"
    by (simp add: len)
  from navigation_frame [OF h0]
  have p0: "handlePrev dinner initial = initial\<lparr>currentStepIndex := 0\<rparr>"
    by (simp add: initial_def)
  show ?thesis
    by (simp add: n1 n2 p1 p0) (simp add: simmering_eq)
qed

lemma expired_tick:
  assumes "timer s = Some t" and "remaining t = 0"
  shows "timer (tick s) = Some (t\<lparr>isRunning := False\<rparr>)"
  using assms by (cases "isRunning t") (simp_all add: tick_def)

lemma expired_other:
  assumes "timer s = Some t" and "remaining t = 0" and "a \<notin> {StartTimer, ResetTimer, StopTimer}"
  shows "\<exists>t'. timer (perform r a s) = Some t' \<and> remaining t' = 0
              \<and> duration t' = duration t \<and> stepIndex t' = stepIndex t"
proof (cases a)
  case Tick
  with expired_tick [OF assms(1,2)] show ?thesis by (simp add: assms(2))
qed (use assms in \<open>simp_all add: handleNext_def handlePrev_def goToTimerStep_def toggleTimer_def
       toggleIngredientCheck_def Let_def\<close>)

text \<open>
  C5. After every operation on a reachable session, an existing timer has
  \<open>0 \<le> remaining \<le> duration\<close>. Once \<open>remaining\<close> is 0, a tick leaves it at 0 and not
  running; reset puts it back to the duration; stop discards the timer; starting a timer
  either does nothing or replaces the timer by a fresh one, and where the view offers the
  start button the expired timer belongs to another step than the fresh one; every other
  operation keeps the countdown at 0.
\<close>

theorem timer_bounds_invariant:
  assumes "reachable r s"
  shows "(\<forall>t'. timer (perform r a s) = Some t' \<longrightarrow> 0 \<le> remaining t' \<and> remaining t' \<le> duration t')
       \<and> (\<forall>t. timer s = Some t \<and> remaining t = 0 \<longrightarrow>
             timer (tick s) = Some (t\<lparr>isRunning := False\<rparr>)
           \<and> timer (resetTimer s) = Some (t\<lparr>remaining := duration t, isRunning := False\<rparr>)
           \<and> timer (stopTimer s) = None
           \<and> (timer (startTimer r s) = Some t
                \<or> (\<exists>d>0. timer (startTimer r s) =
                      Some \<lparr>duration = d, remaining = d, isRunning = True,
                            stepIndex = currentStepIndex s\<rparr>))
           \<and> (start_offered r s \<longrightarrow> stepIndex t \<noteq> currentStepIndex s)
           \<and> (a \<notin> {StartTimer, ResetTimer, StopTimer} \<longrightarrow>
                (\<exists>t'. timer (perform r a s) = Some t' \<and> remaining t' = 0
                      \<and> duration t' = duration t \<and> stepIndex t' = stepIndex t)))"
proof (intro conjI allI impI)
  fix t'
  assume t': "timer (perform r a s) = Some t'"
  from assms have "reachable r (perform r a s)" by (rule reach_perform)
  then have "timer_ok (perform r a s)" by (rule reachable_timer_ok)
  with t' show "0 \<le> remaining t'" and "remaining t' \<le> duration t'"
    by (simp_all add: timer_ok_def)
next
  fix t
  assume "timer s = Some t \<and> remaining t = 0"
  then have t: "timer s = Some t" and z: "remaining t = 0" by simp_all
  from t z show "timer (tick s) = Some (t\<lparr>isRunning := False\<rparr>)" by (rule expired_tick)
  from t show "timer (resetTimer s) = Some (t\<lparr>remaining := duration t, isRunning := False\<rparr>)"
    by (simp add: resetTimer_def)
  show "timer (stopTimer s) = None" by (simp add: stopTimer_def)
  from startTimer_cases [of r s] t
  show "timer (startTimer r s) = Some t
        \<or> (\<exists>d>0. timer (startTimer r s) =
              Some \<lparr>duration = d, remaining = d, isRunning = True, stepIndex = currentStepIndex s\<rparr>)"
    by auto
  assume "a \<notin> {StartTimer, ResetTimer, StopTimer}"
  with t z show "\<exists>t'. timer (perform r a s) = Some t' \<and> remaining t' = 0
              \<and> duration t' = duration t \<and> stepIndex t' = stepIndex t"
    by (rule expired_other)
next
  fix t
  assume "timer s = Some t \<and> remaining t = 0" and "start_offered r s"
  then show "stepIndex t \<noteq> currentStepIndex s"
    by (simp add: start_offered_def)
qed

text \<open>The expired sample session is reachable; tick keeps it, reset refills it.\<close>

theorem timer_bounds_invariant_witness:
  "reachable rest_recipe expired_session
   \<and> timer (tick expired_session) = timer expired_session
   \<and> timer (resetTimer expired_session) =
       Some \<lparr>duration = 60, remaining = 60, isRunning = False, stepIndex = 0\<rparr>
   \<and> 0 \<le> remaining (the (timer (perform rest_recipe Tick expired_session)))
   \<and> remaining (the (timer (perform rest_recipe Tick expired_session)))
       \<le> duration (the (timer (perform rest_recipe Tick expired_session)))"
proof -
  let ?t0 = "\<lparr>duration = 60, remaining = 0, isRunning = False, stepIndex = 0\<rparr>"
  note inv = timer_bounds_invariant [OF expired_session_reachable, of Tick]
  have t0: "timer expired_session = Some ?t0 \<and> remaining ?t0 = 0"
    by (simp add: expired_session_def)
  have tk: "timer (perform rest_recipe Tick expired_session) = Some ?t0"
    by (simp add: expired_session_def tick_def)
  from inv t0 have a: "timer (tick expired_session) = Some (?t0\<lparr>isRunning := False\<rparr>)"
    and b: "timer (resetTimer expired_session) = Some (?t0\<lparr>remaining := duration ?t0, isRunning := False\<rparr>)"
    by blast+
  from inv tk have c: "0 \<le> remaining ?t0 \<and> remaining ?t0 \<le> duration ?t0"
    by blast
  from a b c tk t0 expired_session_reachable show ?thesis by simp
qed

end
